theory Spec2Isabelle
  imports Main
begin

section \<open>The Hindi suffix-stripping stemmer (errant/hi/hindi\_stemmer.py)\<close>

text \<open>
  A Python 3 \<open>str\<close> is a sequence of Unicode code points: \<open>len\<close>, \<open>endswith\<close> and
  slicing count code points, not bytes.  A word is therefore modelled as the list of its
  code points.  Every entry of the suffix table is written with the code points of the
  Devanagari characters of the source literal (U+0900 to U+097F).
\<close>

type_synonym ustr = "nat list"

text \<open>
  The dictionary \<open>suffixes\<close> of the source, keyed by the suffix length.  Its keys are
  exactly 1 to 5, the only keys the loop of \<open>stem\<close> looks up; every other key is given
  the empty list here.
\<close>

definition suffixes :: "nat \<Rightarrow> ustr list" where
  "suffixes L =
    (if L = 1 then
       [[0x94B], [0x947], [0x942], [0x941], [0x940], [0x93F], [0x93E]]
     else if L = 2 then
       [[0x915, 0x930], [0x93E, 0x913], [0x93F, 0x90F], [0x93E, 0x908], [0x93E, 0x90F],
        [0x928, 0x947], [0x928, 0x940], [0x928, 0x93E], [0x924, 0x947], [0x940, 0x902],
        [0x924, 0x940], [0x924, 0x93E], [0x93E, 0x901], [0x93E, 0x902], [0x94B, 0x902],
        [0x947, 0x902]]
     else if L = 3 then
       [[0x93E, 0x915, 0x930], [0x93E, 0x907, 0x90F], [0x93E, 0x908, 0x902],
        [0x93E, 0x92F, 0x93E], [0x947, 0x917, 0x940], [0x947, 0x917, 0x93E],
        [0x94B, 0x917, 0x940], [0x94B, 0x917, 0x947], [0x93E, 0x928, 0x947],
        [0x93E, 0x928, 0x93E], [0x93E, 0x924, 0x947], [0x93E, 0x924, 0x940],
        [0x93E, 0x924, 0x93E], [0x924, 0x940, 0x902], [0x93E, 0x913, 0x902],
        [0x93E, 0x90F, 0x902], [0x941, 0x913, 0x902], [0x941, 0x90F, 0x902],
        [0x941, 0x906, 0x902]]
     else if L = 4 then
       [[0x93E, 0x90F, 0x917, 0x940], [0x93E, 0x90F, 0x917, 0x93E],
        [0x93E, 0x913, 0x917, 0x940], [0x93E, 0x913, 0x917, 0x947],
        [0x90F, 0x902, 0x917, 0x940], [0x947, 0x902, 0x917, 0x940],
        [0x90F, 0x902, 0x917, 0x947], [0x947, 0x902, 0x917, 0x947],
        [0x942, 0x902, 0x917, 0x940], [0x942, 0x902, 0x917, 0x93E],
        [0x93E, 0x924, 0x940, 0x902], [0x928, 0x93E, 0x913, 0x902],
        [0x928, 0x93E, 0x90F, 0x902], [0x924, 0x93E, 0x913, 0x902],
        [0x924, 0x93E, 0x90F, 0x902], [0x93F, 0x92F, 0x93E, 0x901],
        [0x93F, 0x92F, 0x94B, 0x902], [0x93F, 0x92F, 0x93E, 0x902]]
     else if L = 5 then
       [[0x93E, 0x90F, 0x902, 0x917, 0x940], [0x93E, 0x90F, 0x902, 0x917, 0x947],
        [0x93E, 0x90A, 0x902, 0x917, 0x940], [0x93E, 0x90A, 0x902, 0x917, 0x93E],
        [0x93E, 0x907, 0x92F, 0x93E, 0x901], [0x93E, 0x907, 0x92F, 0x94B, 0x902],
        [0x93E, 0x907, 0x92F, 0x93E, 0x902]]
     else [])"

text \<open>\<open>word.endswith(suf)\<close>: the last \<open>len(suf)\<close> code points of the word are \<open>suf\<close>.\<close>

definition endswith :: "ustr \<Rightarrow> ustr \<Rightarrow> bool" where
  "endswith word suf \<longleftrightarrow>
     length suf \<le> length word \<and> drop (length word - length suf) word = suf"

text \<open>
  The slice \<open>word[:-L]\<close> for \<open>L \<ge> 1\<close>: all but the last \<open>L\<close> code points, and the
  empty string when the word has fewer than \<open>L\<close> (the subtraction on \<open>nat\<close> stops at 0,
  as Python clamps the start of the slice).
\<close>

definition slice_to_neg :: "ustr \<Rightarrow> nat \<Rightarrow> ustr" where
  "slice_to_neg word L = take (length word - L) word"

text \<open>
  The inner loop \<open>for suf in suffixes[L]\<close>: \<open>Some r\<close> when the loop executes
  \<open>return word[:-L]\<close>, \<open>None\<close> when it runs to its end.
\<close>

fun try_suffixes :: "ustr \<Rightarrow> nat \<Rightarrow> ustr list \<Rightarrow> ustr option" where
  "try_suffixes word L [] = None"
| "try_suffixes word L (suf # sufs) =
     (if endswith word suf then Some (slice_to_neg word L)
      else try_suffixes word L sufs)"

text \<open>The outer loop \<open>for L in 5, 4, 3, 2, 1\<close> over the lengths still to be tried.\<close>

fun stem_loop :: "nat list \<Rightarrow> ustr \<Rightarrow> ustr" where
  "stem_loop [] word = word"
| "stem_loop (L # Ls) word =
     (if L + 1 < length word then
        (case try_suffixes word L (suffixes L) of
           Some r \<Rightarrow> r
         | None \<Rightarrow> stem_loop Ls word)
      else stem_loop Ls word)"

definition stem :: "ustr \<Rightarrow> ustr" where
  "stem word = stem_loop [5, 4, 3, 2, 1] word"

text \<open>
  A length \<open>L\<close> is applicable to a word when its guard holds and its list holds a suffix
  of the word.
\<close>

definition applicable :: "ustr \<Rightarrow> nat \<Rightarrow> bool" where
  "applicable word L \<longleftrightarrow>
     L + 1 < length word \<and> list_ex (endswith word) (suffixes L)"

section \<open>The parallel-to-M2 driver (errant/commands/parallel\_to\_m2.py)\<close>

subsection \<open>Data supplied by the external collaborators\<close>

text \<open>
  The driver only reads the surface text of a parsed token, the words of a sentence and
  the sentences of a document.
\<close>

record token =
  tok_text :: string

record sentence =
  words :: "token list"

record document =
  sentences :: "sentence list"

text \<open>
  An edit as the driver sees it: its type label \<open>edit.type\<close>, its annotation line
  \<open>edit.to_m2(cor_id)\<close> and its pair \<open>edit.to_srctrg()\<close>.  The class of edits is not
  part of the two source files; its three members are taken as they are, as total
  functions of the edit.
\<close>

record edit =
  etype :: string
  to_m2 :: "nat \<Rightarrow> string"
  to_srctrg :: "string \<times> string"

text \<open>
  An exception is an instance of \<open>Exception\<close> carrying the text \<open>str(e)\<close> that the
  handlers print.  Exceptions outside \<open>Exception\<close> (a keyboard interrupt, an exit
  request) are not part of the model.
\<close>

datatype exn = Exception string

fun str_exn :: "exn \<Rightarrow> string" where
  "str_exn (Exception m) = m"

text \<open>The command-line arguments the loop reads: \<open>args.tok\<close>, \<open>args.lev\<close>, \<open>args.merge\<close>.\<close>

record args =
  tok :: bool
  lev :: bool
  merge :: string

subsection \<open>Program state and the file system\<close>

type_synonym path = string

text \<open>
  The state threaded through the driver: the two mutable containers of \<open>main\<close> (the
  counter \<open>error_count\<close> and the dictionary \<open>out_files\<close>, both in insertion order, as
  Python iterates them) and the part of the world the driver acts on.  A file object is
  identified with the path it was opened on; \<open>opened\<close> lists the file objects that
  were opened and not closed since.  Buffering is not modelled: what is written through
  a file object is in the file.  There is no garbage collector: a file object is closed
  by \<open>close\<close> only.
\<close>

record state =
  error_count :: "(string \<times> nat) list"
  out_files :: "(string \<times> path \<times> path \<times> path) list"
  files :: "path \<rightharpoonup> string"
  dirs :: "path set"
  opened :: "path list"
  stdout :: "string list"

text \<open>
  The operations that may fail.  Whether one fails, and with which exception, is decided
  by the environment from the operation and the state in which it is attempted.
\<close>

datatype io_op = Makedirs path | Open path | Write path string

text \<open>
  The environment of a run: the annotator's \<open>parse\<close> and \<open>annotate\<close> (either may
  raise) and the failures of the file system.
\<close>

record env =
  parse :: "string \<Rightarrow> bool \<Rightarrow> exn + document"
  annotate :: "document \<Rightarrow> document \<Rightarrow> bool \<Rightarrow> string \<Rightarrow> exn + edit list"
  io_fail :: "io_op \<Rightarrow> state \<Rightarrow> exn option"

definition nl :: string where
  "nl = [CHR 0x0A]"

definition tab :: string where
  "tab = [CHR 0x09]"

text \<open>
  Statements run in sequence: the second runs in the state the first left, unless the
  first raised.  A raise keeps the state reached so far, since the containers and the
  files are mutated in place.
\<close>

definition then_do ::
  "state \<times> exn option \<Rightarrow> (state \<Rightarrow> state \<times> exn option) \<Rightarrow> state \<times> exn option" where
  "then_do r f = (case r of (st, None) \<Rightarrow> f st | (st, Some e) \<Rightarrow> (st, Some e))"

definition print_line :: "string \<Rightarrow> state \<Rightarrow> state" where
  "print_line s st = st\<lparr>stdout := stdout st @ [s]\<rparr>"

text \<open>
  \<open>os.makedirs(p, exist_ok=True)\<close>.  Only the directory asked for is recorded, not the
  missing ancestors that are created with it.
\<close>

definition makedirs :: "env \<Rightarrow> path \<Rightarrow> state \<Rightarrow> state \<times> exn option" where
  "makedirs E p st =
     (case io_fail E (Makedirs p) st of
        Some e \<Rightarrow> (st, Some e)
      | None \<Rightarrow> (st\<lparr>dirs := insert p (dirs st)\<rparr>, None))"

text \<open>\<open>open(p, 'w')\<close>: the file is created or truncated, and the file object is open.\<close>

definition open_w :: "env \<Rightarrow> path \<Rightarrow> state \<Rightarrow> state \<times> exn option" where
  "open_w E p st =
     (case io_fail E (Open p) st of
        Some e \<Rightarrow> (st, Some e)
      | None \<Rightarrow> (st\<lparr>files := (files st)(p \<mapsto> []), opened := opened st @ [p]\<rparr>, None))"

text \<open>The text of a file; a file that does not exist has none.\<close>

definition content :: "state \<Rightarrow> path \<Rightarrow> string" where
  "content st p = (case files st p of None \<Rightarrow> [] | Some c \<Rightarrow> c)"

text \<open>\<open>f.write(s)\<close>: Python raises \<open>ValueError\<close> on a closed file object.\<close>

definition file_write :: "env \<Rightarrow> path \<Rightarrow> string \<Rightarrow> state \<Rightarrow> state \<times> exn option" where
  "file_write E f s st =
     (if f \<notin> set (opened st) then (st, Some (Exception ''I/O operation on closed file.''))
      else case io_fail E (Write f s) st of
        Some e \<Rightarrow> (st, Some e)
      | None \<Rightarrow> (st\<lparr>files := (files st)(f \<mapsto> content st f @ s)\<rparr>, None))"

text \<open>\<open>f.close()\<close>; closing is taken to succeed.\<close>

definition close_file :: "path \<Rightarrow> state \<Rightarrow> state" where
  "close_file f st = st\<lparr>opened := remove1 f (opened st)\<rparr>"

subsection \<open>Library functions\<close>

text \<open>\<open>error_count[k] += 1\<close> on a \<open>Counter\<close>: a missing key counts as 0 and is appended.\<close>

fun counter_incr :: "(string \<times> nat) list \<Rightarrow> string \<Rightarrow> (string \<times> nat) list" where
  "counter_incr [] k = [(k, 1)]"
| "counter_incr ((k', n) # kvs) k =
     (if k' = k then (k', n + 1) # kvs else (k', n) # counter_incr kvs k)"

text \<open>\<open>edit.type.replace(":", "_")\<close>.\<close>

definition replace_colon :: "string \<Rightarrow> string" where
  "replace_colon s = map (\<lambda>c. if c = CHR '':'' then CHR ''_'' else c) s"

text \<open>
  \<open>os.path.join(a, b)\<close> of \<open>posixpath\<close>: an absolute \<open>b\<close> replaces \<open>a\<close>, otherwise
  \<open>b\<close> is appended after one separator.  With three arguments the function folds from
  the left.
\<close>

definition path_join :: "path \<Rightarrow> path \<Rightarrow> path" where
  "path_join a b =
     (case b of
        c # _ \<Rightarrow>
          if c = CHR ''/'' then b
          else if a = [] \<or> last a = CHR ''/'' then a @ b
          else a @ ''/'' @ b
      | [] \<Rightarrow> if a = [] \<or> last a = CHR ''/'' then a else a @ ''/'')"

text \<open>\<open>" ".join(xs)\<close>.\<close>

fun join_space :: "string list \<Rightarrow> string" where
  "join_space [] = []"
| "join_space [x] = x"
| "join_space (x # y # ys) = x @ '' '' @ join_space (y # ys)"

text \<open>\<open>str(n)\<close> of a count: its decimal digits.\<close>

fun str_nat :: "nat \<Rightarrow> string" where
  "str_nat n =
     (if n < 10 then [''0123456789'' ! n]
      else str_nat (n div 10) @ [''0123456789'' ! (n mod 10)])"

declare str_nat.simps [simp del]

text \<open>
  \<open>zip(*files)\<close> over the lines of the input files: one group per line number, until
  the shortest file ends.  Reading the input files is not modelled beyond this: their
  lines are given.
\<close>

function zip_lines :: "string list list \<Rightarrow> string list list" where
  "zip_lines fs =
     (if fs = [] \<or> [] \<in> set fs then [] else map hd fs # zip_lines (map tl fs))"
  by pat_completeness auto
termination
proof (relation "measure (\<lambda>fs. length (hd fs))")
  show "wf (measure (\<lambda>fs :: string list list. length (hd fs)))"
    by simp
next
  fix fs :: "string list list"
  assume "\<not> (fs = [] \<or> [] \<in> set fs)"
  then have "fs \<noteq> []" and "hd fs \<noteq> []"
    by (cases fs; auto)+
  then show "(map tl fs, fs) \<in> measure (\<lambda>fs. length (hd fs))"
    by (simp add: hd_map)
qed

declare zip_lines.simps [simp del]

subsection \<open>\<open>process_sentences\<close>\<close>

text \<open>The list \<open>temp1\<close>: every word of every sentence of the original document.\<close>

definition temp1 :: "document \<Rightarrow> token list" where
  "temp1 orig = concat (map words (sentences orig))"

text \<open>The source line \<open>" ".join(["S"] + [token.text for token in temp1])\<close>.\<close>

definition s_line :: "token list \<Rightarrow> string" where
  "s_line toks = join_space (''S'' # map tok_text toks)"

text \<open>The three paths opened for a file name, in the order they are opened.\<close>

definition file_path :: "string \<Rightarrow> path" where
  "file_path file_name = path_join (path_join ''out'' file_name) file_name"

definition m2_path :: "string \<Rightarrow> path" where
  "m2_path file_name = file_path file_name @ ''.m2''"

definition src_path :: "string \<Rightarrow> path" where
  "src_path file_name = file_path file_name @ ''.src''"

definition trg_path :: "string \<Rightarrow> path" where
  "trg_path file_name = file_path file_name @ ''.trg''"

text \<open>
  The body of \<open>if file_name not in out_m2\<close>: the directory is made, the three files
  are opened from left to right, and only then is the triple stored under the file name.
\<close>

definition open_outputs :: "env \<Rightarrow> string \<Rightarrow> state \<Rightarrow> state \<times> exn option" where
  "open_outputs E file_name st =
     then_do (makedirs E (path_join ''out'' file_name) st) (\<lambda>st1.
     then_do (open_w E (m2_path file_name) st1) (\<lambda>st2.
     then_do (open_w E (src_path file_name) st2) (\<lambda>st3.
     then_do (open_w E (trg_path file_name) st3) (\<lambda>st4.
       (st4\<lparr>out_files := out_files st4 @
              [(file_name, m2_path file_name, src_path file_name, trg_path file_name)]\<rparr>,
        None)))))"

text \<open>The body of \<open>for edit in edits\<close> (lines 62 to 75).\<close>

definition write_edit ::
  "env \<Rightarrow> token list \<Rightarrow> nat \<Rightarrow> edit \<Rightarrow> state \<Rightarrow> state \<times> exn option" where
  "write_edit E toks cor_id e st =
     (let st1 = st\<lparr>error_count := counter_incr (error_count st) (etype e)\<rparr>;
          file_name = replace_colon (etype e)
      in then_do
           (if map_of (out_files st1) file_name = None then open_outputs E file_name st1
            else (st1, None))
           (\<lambda>st2.
              case map_of (out_files st2) file_name of
                None \<Rightarrow> (st2, Some (Exception file_name))
              | Some (f0, f1, f2) \<Rightarrow>
                  then_do (file_write E f0 (s_line toks @ nl) st2) (\<lambda>st3.
                  then_do (file_write E f0 (to_m2 e cor_id @ nl) st3) (\<lambda>st4.
                  then_do (file_write E f0 nl st4) (\<lambda>st5.
                  then_do (file_write E f1 (fst (to_srctrg e) @ nl) st5) (\<lambda>st6.
                  file_write E f2 (snd (to_srctrg e) @ nl) st6))))))"

text \<open>The loop \<open>for edit in edits\<close>: it ends at the first exception.\<close>

fun write_edits ::
  "env \<Rightarrow> token list \<Rightarrow> nat \<Rightarrow> edit list \<Rightarrow> state \<Rightarrow> state \<times> exn option" where
  "write_edits E toks cor_id [] st = (st, None)"
| "write_edits E toks cor_id (e # es) st =
     then_do (write_edit E toks cor_id e st) (write_edits E toks cor_id es)"

text \<open>The body of the \<open>try\<close> of \<open>process_sentences\<close>.\<close>

definition cor_body ::
  "env \<Rightarrow> args \<Rightarrow> document \<Rightarrow> token list \<Rightarrow> nat \<Rightarrow> document \<Rightarrow> state \<Rightarrow> state \<times> exn option" where
  "cor_body E a orig toks cor_id cor st =
     (case annotate E orig cor (lev a) (merge a) of
        Inl x \<Rightarrow> (st, Some x)
      | Inr edits \<Rightarrow> write_edits E toks cor_id edits st)"

text \<open>The \<open>try\<close> with its handler \<open>except Exception as e\<close>.\<close>

definition cor_try ::
  "env \<Rightarrow> args \<Rightarrow> document \<Rightarrow> token list \<Rightarrow> nat \<Rightarrow> document \<Rightarrow> state \<Rightarrow> state" where
  "cor_try E a orig toks cor_id cor st =
     (case cor_body E a orig toks cor_id cor st of
        (st', None) \<Rightarrow> st'
      | (st', Some x) \<Rightarrow> print_line (''Failed to align texts: '' @ str_exn x) st')"

text \<open>The loop \<open>for cor_id, cor in enumerate(cors)\<close>, from the index \<open>cor_id\<close> on.\<close>

fun process_cors ::
  "env \<Rightarrow> args \<Rightarrow> document \<Rightarrow> token list \<Rightarrow> nat \<Rightarrow> document list \<Rightarrow> state \<Rightarrow> state" where
  "process_cors E a orig toks cor_id [] st = st"
| "process_cors E a orig toks cor_id (cor # cors) st =
     process_cors E a orig toks (Suc cor_id) cors (cor_try E a orig toks cor_id cor st)"

definition process_sentences ::
  "env \<Rightarrow> args \<Rightarrow> document \<Rightarrow> document list \<Rightarrow> state \<Rightarrow> state" where
  "process_sentences E a orig cors st = process_cors E a orig (temp1 orig) 0 cors st"

subsection \<open>\<open>main\<close>\<close>

text \<open>\<open>tuple(annotator.parse(line, args.tok) for line in lines)\<close>: the first raise ends it.\<close>

fun parse_lines :: "env \<Rightarrow> args \<Rightarrow> string list \<Rightarrow> exn + document list" where
  "parse_lines E a [] = Inr []"
| "parse_lines E a (line # lines) =
     (case parse E line (tok a) of
        Inl x \<Rightarrow> Inl x
      | Inr d \<Rightarrow>
          (case parse_lines E a lines of
             Inl x \<Rightarrow> Inl x
           | Inr ds \<Rightarrow> Inr (d # ds)))"

text \<open>
  The body of the inner \<open>try\<close> of \<open>main\<close> for one group of lines; \<open>docs[0]\<close> raises
  \<open>IndexError\<close> on an empty tuple.
\<close>

definition group_body :: "env \<Rightarrow> args \<Rightarrow> string list \<Rightarrow> state \<Rightarrow> state \<times> exn option" where
  "group_body E a lines st =
     (case parse_lines E a lines of
        Inl x \<Rightarrow> (st, Some x)
      | Inr docs \<Rightarrow>
          (case docs of
             [] \<Rightarrow> (st, Some (Exception ''tuple index out of range''))
           | orig # cors \<Rightarrow> (process_sentences E a orig cors st, None)))"

text \<open>The inner \<open>try\<close> with its handler \<open>except Exception as e\<close>.\<close>

definition group_try :: "env \<Rightarrow> args \<Rightarrow> string list \<Rightarrow> state \<Rightarrow> state" where
  "group_try E a lines st =
     (case group_body E a lines st of
        (st', None) \<Rightarrow> st'
      | (st', Some x) \<Rightarrow> print_line (''Failed to process line: '' @ str_exn x) st')"

text \<open>The loop \<open>for lines in zip(*files)\<close>.\<close>

fun main_loop :: "env \<Rightarrow> args \<Rightarrow> string list list \<Rightarrow> state \<Rightarrow> state" where
  "main_loop E a [] st = st"
| "main_loop E a (lines # groups) st = main_loop E a groups (group_try E a lines st)"

text \<open>The \<open>finally\<close> block: every triple stored in \<open>out_files\<close> is closed.\<close>

fun close_all :: "(string \<times> path \<times> path \<times> path) list \<Rightarrow> state \<Rightarrow> state" where
  "close_all [] st = st"
| "close_all ((file_name, f0, f1, f2) # rest) st =
     close_all rest (close_file f2 (close_file f1 (close_file f0 st)))"

text \<open>The loop \<open>for key in error_count\<close> writing to the open histogram file.\<close>

fun write_counts :: "env \<Rightarrow> path \<Rightarrow> (string \<times> nat) list \<Rightarrow> state \<Rightarrow> state \<times> exn option" where
  "write_counts E f [] st = (st, None)"
| "write_counts E f ((key, n) # kvs) st =
     then_do (file_write E f (key @ tab @ str_nat n) st) (write_counts E f kvs)"

text \<open>
  \<open>with open('error_file', 'w') as error_file\<close>: the file is closed when the block is
  left, also by an exception.
\<close>

definition write_histogram :: "env \<Rightarrow> state \<Rightarrow> state \<times> exn option" where
  "write_histogram E st =
     then_do (open_w E ''error_file'' st) (\<lambda>st1.
       case write_counts E ''error_file'' (error_count st1) st1 of
         (st2, r) \<Rightarrow> (close_file ''error_file'' st2, r))"

text \<open>
  \<open>main\<close>, from the two fresh containers on, given the lines of the original file and
  of each corrected file.  The result is the final state and the exception that ended
  the run, if one did.
\<close>

definition main ::
  "env \<Rightarrow> args \<Rightarrow> string list \<Rightarrow> string list list \<Rightarrow> state \<Rightarrow> state \<times> exn option" where
  "main E a orig_lines cor_lines st0 =
     (let st1 = print_line ''Loading resources...'' st0;
          st2 = st1\<lparr>error_count := []\<rparr>;
          st3 = print_line ''Processing parallel files...'' st2;
          st4 = st3\<lparr>out_files := []\<rparr>;
          st5 = main_loop E a (zip_lines (orig_lines # cor_lines)) st4;
          st6 = close_all (out_files st5) st5
      in write_histogram E st6)"

subsection \<open>A small run\<close>

text \<open>
  An environment for concrete runs.  The original file holds a line the parser rejects,
  then \<open>I is happy\<close> and \<open>a dog\<close>; the corrected file holds \<open>I am happy\<close> and
  \<open>the dog\<close> against them.  The annotator finds one edit of type \<open>R:VERB\<close> in the
  second pair of lines and one of type \<open>R:DET\<close> in the third.
\<close>

definition ex_doc :: "string list \<Rightarrow> document" where
  "ex_doc ws = \<lparr>sentences = [\<lparr>words = map (\<lambda>w. \<lparr>tok_text = w\<rparr>) ws\<rparr>]\<rparr>"

definition ex_verb :: edit where
  "ex_verb =
     \<lparr>etype = ''R:VERB'',
      to_m2 = (\<lambda>cor_id. ''A 1 2|||R:VERB|||am|||REQUIRED|||-NONE-|||'' @ str_nat cor_id),
      to_srctrg = (''I is happy'', ''I am happy'')\<rparr>"

definition ex_det :: edit where
  "ex_det =
     \<lparr>etype = ''R:DET'',
      to_m2 = (\<lambda>cor_id. ''A 0 1|||R:DET|||the|||REQUIRED|||-NONE-|||'' @ str_nat cor_id),
      to_srctrg = (''a dog'', ''the dog'')\<rparr>"

definition ex_parse :: "string \<Rightarrow> bool \<Rightarrow> exn + document" where
  "ex_parse line t =
     (if line = ''I is happy'' @ nl then Inr (ex_doc [''I'', ''is'', ''happy''])
      else if line = ''I am happy'' @ nl then Inr (ex_doc [''I'', ''am'', ''happy''])
      else if line = ''a dog'' @ nl then Inr (ex_doc [''a'', ''dog''])
      else if line = ''the dog'' @ nl then Inr (ex_doc [''the'', ''dog''])
      else Inl (Exception ''cannot parse''))"

definition ex_annotate :: "document \<Rightarrow> document \<Rightarrow> bool \<Rightarrow> string \<Rightarrow> exn + edit list" where
  "ex_annotate orig cor l m =
     (if orig = ex_doc [''I'', ''is'', ''happy''] \<and> cor = ex_doc [''I'', ''am'', ''happy'']
      then Inr [ex_verb]
      else if orig = ex_doc [''a'', ''dog''] \<and> cor = ex_doc [''the'', ''dog'']
      then Inr [ex_det]
      else Inr [])"

definition ex_env :: "(io_op \<Rightarrow> state \<Rightarrow> exn option) \<Rightarrow> env" where
  "ex_env f = \<lparr>parse = ex_parse, annotate = ex_annotate, io_fail = f\<rparr>"

definition ex_args :: args where
  "ex_args = \<lparr>tok = False, lev = False, merge = ''rules''\<rparr>"

definition ex_state :: state where
  "ex_state =
     \<lparr>error_count = [], out_files = [], files = Map.empty, dirs = {}, opened = [],
      stdout = []\<rparr>"

definition ex_orig :: "string list" where
  "ex_orig = [''???'' @ nl, ''I is happy'' @ nl, ''a dog'' @ nl]"

definition ex_cor :: "string list" where
  "ex_cor = [''???'' @ nl, ''I am happy'' @ nl, ''the dog'' @ nl]"

text \<open>A file system on which nothing fails, and one on which exactly one operation does.\<close>

definition io_ok :: "io_op \<Rightarrow> state \<Rightarrow> exn option" where
  "io_ok op st = None"


subsection \<open>Notions used to state the properties of the driver\<close>

text \<open>
  The example run on a given file system: one original file, one corrected file, the
  containers and the file system empty at the start.
\<close>

definition ex_run :: "(io_op \<Rightarrow> state \<Rightarrow> exn option) \<Rightarrow> state \<times> exn option" where
  "ex_run f = main (ex_env f) ex_args ex_orig [ex_cor] ex_state"

text \<open>
  The block written to the annotation file for one edit: the source line, the
  annotation line and an empty line.  A sequence of blocks is their concatenation.
\<close>

definition m2_block :: "token list \<Rightarrow> string \<Rightarrow> string" where
  "m2_block toks ann = s_line toks @ nl @ ann @ nl @ nl"

definition m2_blocks :: "(token list \<times> string) list \<Rightarrow> string" where
  "m2_blocks bs = concat (map (\<lambda>(toks, ann). m2_block toks ann) bs)"


text \<open>
  Every triple stored in \<open>out_files\<close> holds the three paths of its file name, and the
  three file objects are open.  The loop of \<open>main\<close> keeps this true of every state in
  which an edit is written.
\<close>

definition handles_ok :: "state \<Rightarrow> bool" where
  "handles_ok st \<longleftrightarrow>
     list_all (\<lambda>(file_name, f0, f1, f2).
        f0 = m2_path file_name \<and> f1 = src_path file_name \<and> f2 = trg_path file_name
        \<and> f0 \<in> set (opened st) \<and> f1 \<in> set (opened st) \<and> f2 \<in> set (opened st))
      (out_files st)"

text \<open>
  The outputs of a file name exist: its directory was made and its three files are in
  the file system.
\<close>

definition outputs_exist :: "state \<Rightarrow> string \<Rightarrow> bool" where
  "outputs_exist st file_name \<longleftrightarrow>
     path_join ''out'' file_name \<in> dirs st
     \<and> files st (m2_path file_name) \<noteq> None
     \<and> files st (src_path file_name) \<noteq> None
     \<and> files st (trg_path file_name) \<noteq> None"

text \<open>
  The blocks a run may write: the source line of an original document together with
  the annotation line of an edit the annotator returned for that document, under the
  index of some corrected text.
\<close>

definition run_blocks :: "env \<Rightarrow> args \<Rightarrow> (token list \<times> string) set" where
  "run_blocks E a =
     {(temp1 orig, to_m2 e cor_id) | orig cor cor_id e edits.
        annotate E orig cor (lev a) (merge a) = Inr edits \<and> e \<in> set edits}"

text \<open>
  The invariant of the loop of \<open>main\<close> on a file system without failures: the
  stored triples are as above; every stored file name has its outputs, and its annotation
  file is a sequence of blocks drawn from \<open>B\<close>; every label counted has its file name
  stored.
\<close>

definition good :: "(token list \<times> string) set \<Rightarrow> state \<Rightarrow> bool" where
  "good B st \<longleftrightarrow>
     handles_ok st
     \<and> (\<forall>file_name \<in> fst ` set (out_files st).
           outputs_exist st file_name
           \<and> (\<exists>bs. set bs \<subseteq> B \<and> content st (m2_path file_name) = m2_blocks bs))
     \<and> (\<forall>label \<in> fst ` set (error_count st).
           replace_colon label \<in> fst ` set (out_files st))"

section \<open>Properties of the stemmer\<close>

lemma suffixes_length: "suf \<in> set (suffixes L) \<Longrightarrow> length suf = L"
  unfolding suffixes_def by (auto split: if_splits)

lemma try_suffixes_Some:
  "try_suffixes word L sufs = Some r \<longleftrightarrow>
     list_ex (endswith word) sufs \<and> r = slice_to_neg word L"
  by (induction sufs) auto

lemma try_suffixes_None:
  "try_suffixes word L sufs = None \<longleftrightarrow> \<not> list_ex (endswith word) sufs"
  by (induction sufs) auto

text \<open>The loop returns at the first applicable length of its list.\<close>

lemma stem_loop_find:
  "stem_loop Ls word =
     (case find (applicable word) Ls of None \<Rightarrow> word | Some L \<Rightarrow> slice_to_neg word L)"
proof (induction Ls)
  case Nil
  show ?case by simp
next
  case (Cons L Ls)
  show ?case
  proof (cases "applicable word L")
    case True
    then have "try_suffixes word L (suffixes L) = Some (slice_to_neg word L)"
      by (simp add: applicable_def try_suffixes_Some)
    with True show ?thesis by (simp add: applicable_def)
  next
    case False
    then have "L + 1 < length word \<Longrightarrow> try_suffixes word L (suffixes L) = None"
      by (simp add: applicable_def try_suffixes_None)
    with False Cons.IH show ?thesis by (auto simp: applicable_def)
  qed
qed

lemma stem_loop_cases:
  "stem_loop Ls word = word \<or>
   (\<exists>L\<in>set Ls. applicable word L \<and> stem_loop Ls word = slice_to_neg word L)"
proof (cases "find (applicable word) Ls")
  case None
  then show ?thesis by (simp add: stem_loop_find)
next
  case (Some L)
  then have "L \<in> set Ls \<and> applicable word L"
    by (auto simp: find_Some_iff)
  with Some show ?thesis by (auto simp: stem_loop_find)
qed

lemma stem_loop_first:
  "\<forall>L'\<in>set pre. \<not> applicable word L' \<Longrightarrow> applicable word L \<Longrightarrow>
   stem_loop (pre @ L # post) word = slice_to_neg word L"
  by (induction pre) (simp_all add: stem_loop_find)

lemma stem_loop_none:
  "\<forall>L'\<in>set Ls. \<not> applicable word L' \<Longrightarrow> stem_loop Ls word = word"
  by (induction Ls) (simp_all add: stem_loop_find)

lemma stem_cases:
  "stem word = word \<or>
   (\<exists>L\<in>{1..5}. applicable word L \<and> stem word = slice_to_neg word L)"
proof -
  have "set [5, 4, 3, 2, 1] \<subseteq> {1..5::nat}" by simp
  with stem_loop_cases [of "[5, 4, 3, 2, 1]" word] show ?thesis
    unfolding stem_def by blast
qed

lemma range_1_5: "L \<in> {1..5::nat} \<longleftrightarrow> L = 1 \<or> L = 2 \<or> L = 3 \<or> L = 4 \<or> L = 5"
  by auto

lemma applicable_suffix:
  assumes "applicable word L"
  shows "\<exists>suf\<in>set (suffixes L). length suf = L \<and> slice_to_neg word L @ suf = word"
proof -
  from assms obtain suf where s: "suf \<in> set (suffixes L)" and e: "endswith word suf"
    by (auto simp: applicable_def list_ex_iff)
  from s have l: "length suf = L" by (rule suffixes_length)
  from e l have "slice_to_neg word L @ suf = word"
    by (auto simp: endswith_def slice_to_neg_def) (metis append_take_drop_id)
  with s l show ?thesis by blast
qed

text \<open>
  C4.  The lengths are tried in the order 5, 4, 3, 2, 1 and the first applicable one (its
  guard holds and its list holds a suffix of the word) decides the result: the stem is
  the word without its last \<open>L\<close> code points for the first applicable \<open>L\<close> of that
  list, and the word itself when no length is applicable.  Hence an applicable length
  with no applicable longer one is the one stripped, whatever shorter lengths apply.
\<close>

theorem stem_longest_first:
  "stem word =
     (case find (applicable word) [5, 4, 3, 2, 1] of
        None \<Rightarrow> word
      | Some L \<Rightarrow> slice_to_neg word L)
   \<and> (L \<in> {1..5} \<and> applicable word L \<and> (\<forall>L'. L < L' \<and> L' \<le> 5 \<longrightarrow> \<not> applicable word L')
        \<longrightarrow> stem word = slice_to_neg word L)
   \<and> ((\<forall>L'\<in>{1..5}. \<not> applicable word L') \<longrightarrow> stem word = word)"
proof (intro conjI impI)
  show "stem word =
     (case find (applicable word) [5, 4, 3, 2, 1] of
        None \<Rightarrow> word
      | Some L \<Rightarrow> slice_to_neg word L)"
    by (simp only: stem_def stem_loop_find)
next
  assume a: "L \<in> {1..5} \<and> applicable word L \<and>
    (\<forall>L'. L < L' \<and> L' \<le> 5 \<longrightarrow> \<not> applicable word L')"
  then have "L = 1 \<or> L = 2 \<or> L = 3 \<or> L = 4 \<or> L = 5"
    by (simp only: range_1_5)
  moreover have "stem word = slice_to_neg word 5" if "L = 5"
    using a that stem_loop_first [of "[]" word 5 "[4, 3, 2, 1]"] by (simp add: stem_def)
  moreover have "stem word = slice_to_neg word 4" if "L = 4"
    using a that stem_loop_first [of "[5]" word 4 "[3, 2, 1]"] by (simp add: stem_def)
  moreover have "stem word = slice_to_neg word 3" if "L = 3"
    using a that stem_loop_first [of "[5, 4]" word 3 "[2, 1]"] by (simp add: stem_def)
  moreover have "stem word = slice_to_neg word 2" if "L = 2"
    using a that stem_loop_first [of "[5, 4, 3]" word 2 "[1]"] by (simp add: stem_def)
  moreover have "stem word = slice_to_neg word 1" if "L = 1"
    using a that stem_loop_first [of "[5, 4, 3, 2]" word 1 "[]"] by (simp add: stem_def)
  ultimately show "stem word = slice_to_neg word L"
    by blast
next
  assume "\<forall>L'\<in>{1..5}. \<not> applicable word L'"
  then have "\<forall>L'\<in>set [5, 4, 3, 2, 1]. \<not> applicable word L'" by simp
  then show "stem word = word"
    unfolding stem_def by (rule stem_loop_none)
qed

text \<open>
  The word U+0932 U+0921 U+0915 U+093F U+092F U+093E U+0902 ends with an entry of length 4
  and with one of length 2, and with none of length 5: the four code points are stripped.
\<close>

theorem stem_longest_first_witness:
  "applicable [0x932, 0x921, 0x915, 0x93F, 0x92F, 0x93E, 0x902] 4
   \<and> applicable [0x932, 0x921, 0x915, 0x93F, 0x92F, 0x93E, 0x902] 2
   \<and> \<not> applicable [0x932, 0x921, 0x915, 0x93F, 0x92F, 0x93E, 0x902] 5
   \<and> stem [0x932, 0x921, 0x915, 0x93F, 0x92F, 0x93E, 0x902] = [0x932, 0x921, 0x915]"
proof -
  let ?w = "[0x932, 0x921, 0x915, 0x93F, 0x92F, 0x93E, 0x902] :: ustr"
  have a4: "applicable ?w 4" and a2: "applicable ?w 2" and a5: "\<not> applicable ?w 5"
    by (simp_all add: applicable_def suffixes_def endswith_def)
  have "L' = 5" if "4 < L' \<and> L' \<le> 5" for L' :: nat
    using that by arith
  with a5 have "\<forall>L'. 4 < L' \<and> L' \<le> 5 \<longrightarrow> \<not> applicable ?w L'"
    by blast
  with a4 stem_longest_first [of ?w 4] have "stem ?w = slice_to_neg ?w 4"
    by simp
  with a4 a2 a5 show ?thesis
    by (simp add: slice_to_neg_def)
qed

text \<open>
  C5.  The guard on the remaining length: a word of at most 2 code points is returned
  as it is; when the stem differs from the word it has at least 2 code points; and when
  the stem is the word without its last \<open>L\<close> code points, the word has more than
  \<open>L + 1\<close>.
\<close>

theorem stem_guard:
  "(length word \<le> 2 \<longrightarrow> stem word = word)
   \<and> (stem word \<noteq> word \<longrightarrow> 2 \<le> length (stem word))
   \<and> (1 \<le> L \<and> stem word \<noteq> word \<and> stem word = slice_to_neg word L
        \<longrightarrow> L + 1 < length word)"
proof (intro conjI impI)
  assume "length word \<le> 2"
  then have "\<forall>L'\<in>set [5, 4, 3, 2, 1]. \<not> applicable word L'"
    by (simp add: applicable_def)
  then show "stem word = word"
    unfolding stem_def by (rule stem_loop_none)
next
  assume "stem word \<noteq> word"
  with stem_cases [of word] obtain L0
    where "applicable word L0" "stem word = slice_to_neg word L0"
    by blast
  then have "L0 + 1 < length word" "length (stem word) = length word - L0"
    by (simp_all add: applicable_def slice_to_neg_def)
  then show "2 \<le> length (stem word)"
    by arith
next
  assume a: "1 \<le> L \<and> stem word \<noteq> word \<and> stem word = slice_to_neg word L"
  with stem_cases [of word] obtain L0
    where L0: "applicable word L0" "stem word = slice_to_neg word L0"
    by blast
  then have "length (stem word) = length word - L0" "L0 + 1 < length word"
    by (simp_all add: applicable_def slice_to_neg_def)
  moreover from a have "length (stem word) = length word - L"
    by (simp add: slice_to_neg_def)
  ultimately show "L + 1 < length word"
    by arith
qed

text \<open>
  U+0915 U+093E has 2 code points and ends with an entry of length 1: it is kept whole.
  U+0915 U+0930 U+093E has 3: the last one is stripped and 2 remain.
\<close>

theorem stem_guard_witness:
  "length [0x915, 0x93E :: nat] \<le> 2
   \<and> endswith [0x915, 0x93E] [0x93E]
   \<and> stem [0x915, 0x93E] = [0x915, 0x93E]
   \<and> stem [0x915, 0x930, 0x93E] = slice_to_neg [0x915, 0x930, 0x93E] 1
   \<and> stem [0x915, 0x930, 0x93E] \<noteq> [0x915, 0x930, 0x93E]
   \<and> 2 \<le> length (stem [0x915, 0x930, 0x93E])
   \<and> (1::nat) + 1 < length [0x915, 0x930, 0x93E :: nat]"
proof -
  have s3: "stem [0x915, 0x930, 0x93E] = [0x915, 0x930]"
    by (simp add: stem_def suffixes_def endswith_def slice_to_neg_def)
  have "length [0x915, 0x93E :: nat] \<le> 2"
    by simp
  with stem_guard [of "[0x915, 0x93E]" 1] have "stem [0x915, 0x93E] = [0x915, 0x93E]"
    by blast
  moreover from s3 stem_guard [of "[0x915, 0x930, 0x93E]" 1]
  have "2 \<le> length (stem [0x915, 0x930, 0x93E])
    \<and> (1::nat) + 1 < length [0x915, 0x930, 0x93E :: nat]"
    by (simp add: slice_to_neg_def)
  ultimately show ?thesis
    using s3 by (simp add: endswith_def slice_to_neg_def)
qed

text \<open>
  C9.  The stem is a prefix of the word: either it is the word, or the word is the stem
  followed by an entry of the table, listed under its own length \<open>L\<close>, and exactly
  \<open>L\<close> code points were removed.
\<close>

theorem stem_prefix:
  "take (length (stem word)) word = stem word
   \<and> (stem word = word
      \<or> (\<exists>L\<in>{1..5}. \<exists>suf\<in>set (suffixes L).
            length suf = L \<and> length (stem word) + L = length word \<and> stem word @ suf = word))"
proof (cases "stem word = word")
  case True
  then show ?thesis by simp
next
  case False
  with stem_cases [of word] obtain L
    where L: "L \<in> {1..5}" "applicable word L" "stem word = slice_to_neg word L"
    by blast
  from applicable_suffix [OF L(2)] obtain suf
    where suf: "suf \<in> set (suffixes L)" "length suf = L" "slice_to_neg word L @ suf = word"
    by blast
  from suf L(3) have w: "stem word @ suf = word" by simp
  then have "length (stem word) + length suf = length word"
    by (metis length_append)
  with suf L w have "\<exists>L\<in>{1..5}. \<exists>suf\<in>set (suffixes L).
      length suf = L \<and> length (stem word) + L = length word \<and> stem word @ suf = word"
    by blast
  moreover from w have "take (length (stem word)) word = stem word"
    by (metis append_eq_conv_conj)
  ultimately show ?thesis by blast
qed

text \<open>
  For U+0932 U+0921 U+0915 U+093F U+092F U+093E U+0902 the removed part is the entry
  U+093F U+092F U+093E U+0902 of length 4.
\<close>

theorem stem_prefix_witness:
  "stem [0x932, 0x921, 0x915, 0x93F, 0x92F, 0x93E, 0x902] = [0x932, 0x921, 0x915]
   \<and> [0x93F, 0x92F, 0x93E, 0x902] \<in> set (suffixes 4)
   \<and> take (length (stem [0x932, 0x921, 0x915, 0x93F, 0x92F, 0x93E, 0x902]))
        [0x932, 0x921, 0x915, 0x93F, 0x92F, 0x93E, 0x902]
      = stem [0x932, 0x921, 0x915, 0x93F, 0x92F, 0x93E, 0x902]"
proof -
  let ?w = "[0x932, 0x921, 0x915, 0x93F, 0x92F, 0x93E, 0x902] :: ustr"
  have "stem ?w = [0x932, 0x921, 0x915]"
    by (simp add: stem_def suffixes_def endswith_def slice_to_neg_def)
  moreover have "[0x93F, 0x92F, 0x93E, 0x902] \<in> set (suffixes 4)"
    by (simp add: suffixes_def)
  moreover from stem_prefix [of ?w] have "take (length (stem ?w)) ?w = stem ?w"
    by blast
  ultimately show ?thesis by blast
qed

section \<open>Properties of the driver\<close>

subsection \<open>Sequencing and the primitive operations\<close>

lemma then_do_None [simp]: "then_do (st, None) f = f st"
  by (simp add: then_do_def)

lemma then_do_Some [simp]: "then_do (st, Some x) f = (st, Some x)"
  by (simp add: then_do_def)

lemma then_do_eq_None:
  "then_do r f = (st', None) \<longleftrightarrow> (\<exists>st1. r = (st1, None) \<and> f st1 = (st', None))"
  by (cases r; cases "snd r") auto

lemma makedirs_eq_None:
  "makedirs E p st = (st', None) \<longleftrightarrow>
     io_fail E (Makedirs p) st = None \<and> st' = st\<lparr>dirs := insert p (dirs st)\<rparr>"
  by (auto simp: makedirs_def split: option.splits)

lemma open_w_eq_None:
  "open_w E p st = (st', None) \<longleftrightarrow>
     io_fail E (Open p) st = None
     \<and> st' = st\<lparr>files := (files st)(p \<mapsto> []), opened := opened st @ [p]\<rparr>"
  by (auto simp: open_w_def split: option.splits)

lemma file_write_eq_None:
  "file_write E f s st = (st', None) \<longleftrightarrow>
     f \<in> set (opened st) \<and> io_fail E (Write f s) st = None
     \<and> st' = st\<lparr>files := (files st)(f \<mapsto> content st f @ s)\<rparr>"
  by (auto simp: file_write_def split: option.splits)



lemma file_write_fields:
  assumes "file_write E f s st = (st', r)"
  shows "error_count st' = error_count st \<and> out_files st' = out_files st
    \<and> dirs st' = dirs st \<and> opened st' = opened st
    \<and> (\<forall>p. p \<noteq> f \<longrightarrow> files st' p = files st p)
    \<and> (\<forall>p. files st p \<noteq> None \<longrightarrow> files st' p \<noteq> None)"
  using assms by (auto simp: file_write_def split: if_splits option.splits)

lemma last_paths:
  "last (m2_path a) = CHR ''2''" "last (src_path a) = CHR ''c''" "last (trg_path a) = CHR ''g''"
  by (simp_all add: m2_path_def src_path_def trg_path_def)

lemma paths_distinct [simp]:
  "m2_path a \<noteq> src_path b" "m2_path a \<noteq> trg_path b" "src_path a \<noteq> trg_path b"
  "src_path b \<noteq> m2_path a" "trg_path b \<noteq> m2_path a" "trg_path b \<noteq> src_path a"
proof -
  show "m2_path a \<noteq> src_path b"
    using last_paths(1) [of a] last_paths(2) [of b] by auto
  show "m2_path a \<noteq> trg_path b"
    using last_paths(1) [of a] last_paths(3) [of b] by auto
  show "src_path a \<noteq> trg_path b"
    using last_paths(2) [of a] last_paths(3) [of b] by auto
  show "src_path b \<noteq> m2_path a"
    using last_paths(1) [of a] last_paths(2) [of b] by auto
  show "trg_path b \<noteq> m2_path a"
    using last_paths(1) [of a] last_paths(3) [of b] by auto
  show "trg_path b \<noteq> src_path a"
    using last_paths(2) [of a] last_paths(3) [of b] by auto
qed

lemma m2_path_not_error_file: "m2_path k \<noteq> ''error_file''"
  using last_paths(1) [of k] by auto

lemma map_of_counter_incr:
  "map_of (counter_incr kvs k) k' =
     (if k' = k then Some (case map_of kvs k of None \<Rightarrow> 1 | Some n \<Rightarrow> n + 1)
      else map_of kvs k')"
  by (induction kvs) auto

lemma registered_iff: "map_of kvs k \<noteq> None \<longleftrightarrow> k \<in> fst ` set kvs"
  by (simp add: map_of_eq_None_iff)

lemma keys_counter_incr:
  "k' \<in> fst ` set (counter_incr kvs k) \<longleftrightarrow> k' = k \<or> k' \<in> fst ` set kvs"
  unfolding registered_iff [symmetric] by (simp add: map_of_counter_incr)

lemma m2_blocks_Nil [simp]: "m2_blocks [] = []"
  by (simp add: m2_blocks_def)

lemma m2_blocks_snoc [simp]:
  "m2_blocks (bs @ [(toks, ann)]) = m2_blocks bs @ m2_block toks ann"
  by (simp add: m2_blocks_def)

subsection \<open>The effect of writing one edit\<close>

lemma handles_ok_lookup:
  assumes "handles_ok st" and "map_of (out_files st) fn = Some (f0, f1, f2)"
  shows "f0 = m2_path fn \<and> f1 = src_path fn \<and> f2 = trg_path fn
     \<and> f0 \<in> set (opened st) \<and> f1 \<in> set (opened st) \<and> f2 \<in> set (opened st)"
proof -
  from assms(2) have "(fn, f0, f1, f2) \<in> set (out_files st)"
    by (rule map_of_SomeD)
  with assms(1) have "case (fn, f0, f1, f2) of (file_name, f0, f1, f2) \<Rightarrow>
        f0 = m2_path file_name \<and> f1 = src_path file_name \<and> f2 = trg_path file_name
        \<and> f0 \<in> set (opened st) \<and> f1 \<in> set (opened st) \<and> f2 \<in> set (opened st)"
    unfolding handles_ok_def list_all_iff by (rule bspec)
  then show ?thesis by (elim case_prodE conjE) auto
qed

lemma open_outputs_eq_None:
  assumes "open_outputs E fn st = (st', None)"
  shows "st' = st\<lparr>dirs := insert (path_join ''out'' fn) (dirs st),
              files := (files st)(m2_path fn \<mapsto> [], src_path fn \<mapsto> [], trg_path fn \<mapsto> []),
              opened := opened st @ [m2_path fn, src_path fn, trg_path fn],
              out_files := out_files st @ [(fn, m2_path fn, src_path fn, trg_path fn)]\<rparr>"
proof -
  from assms obtain st1 st2 st3 st4 where
    s1: "makedirs E (path_join ''out'' fn) st = (st1, None)" and
    s2: "open_w E (m2_path fn) st1 = (st2, None)" and
    s3: "open_w E (src_path fn) st2 = (st3, None)" and
    s4: "open_w E (trg_path fn) st3 = (st4, None)" and
    s5: "st' = st4\<lparr>out_files := out_files st4 @
              [(fn, m2_path fn, src_path fn, trg_path fn)]\<rparr>"
    unfolding open_outputs_def then_do_eq_None by blast
  from s1 have e1: "st1 = st\<lparr>dirs := insert (path_join ''out'' fn) (dirs st)\<rparr>"
    by (simp add: makedirs_eq_None)
  from s2 have e2: "st2 = st1\<lparr>files := (files st1)(m2_path fn \<mapsto> []),
      opened := opened st1 @ [m2_path fn]\<rparr>"
    by (simp add: open_w_eq_None)
  from s3 have e3: "st3 = st2\<lparr>files := (files st2)(src_path fn \<mapsto> []),
      opened := opened st2 @ [src_path fn]\<rparr>"
    by (simp add: open_w_eq_None)
  from s4 have e4: "st4 = st3\<lparr>files := (files st3)(trg_path fn \<mapsto> []),
      opened := opened st3 @ [trg_path fn]\<rparr>"
    by (simp add: open_w_eq_None)
  show ?thesis
    using s5 e4 e3 e2 e1 by simp
qed

text \<open>
  The five writes of one edit, when none of them raises.
\<close>

lemma five_writes:
  assumes w: "then_do (file_write E f0 a st) (\<lambda>st3.
           then_do (file_write E f0 b st3) (\<lambda>st4.
           then_do (file_write E f0 c st4) (\<lambda>st5.
           then_do (file_write E f1 d st5) (\<lambda>st6.
           file_write E f2 e st6)))) = (st', None)"
    and ne: "f0 \<noteq> f1" "f0 \<noteq> f2" "f1 \<noteq> f2"
  shows "st' = st\<lparr>files := (files st)(f0 \<mapsto> content st f0 @ a @ b @ c,
                                       f1 \<mapsto> content st f1 @ d,
                                       f2 \<mapsto> content st f2 @ e)\<rparr>"
proof -
  from w obtain st3 st4 st5 st6 where
    s3: "file_write E f0 a st = (st3, None)" and
    s4: "file_write E f0 b st3 = (st4, None)" and
    s5: "file_write E f0 c st4 = (st5, None)" and
    s6: "file_write E f1 d st5 = (st6, None)" and
    s7: "file_write E f2 e st6 = (st', None)"
    unfolding then_do_eq_None by blast
  from s3 have e3: "st3 = st\<lparr>files := (files st)(f0 \<mapsto> content st f0 @ a)\<rparr>"
    by (simp add: file_write_eq_None)
  from s4 have e4: "st4 = st3\<lparr>files := (files st3)(f0 \<mapsto> content st3 f0 @ b)\<rparr>"
    by (simp add: file_write_eq_None)
  from s5 have e5: "st5 = st4\<lparr>files := (files st4)(f0 \<mapsto> content st4 f0 @ c)\<rparr>"
    by (simp add: file_write_eq_None)
  from s6 have e6: "st6 = st5\<lparr>files := (files st5)(f1 \<mapsto> content st5 f1 @ d)\<rparr>"
    by (simp add: file_write_eq_None)
  from s7 have e7: "st' = st6\<lparr>files := (files st6)(f2 \<mapsto> content st6 f2 @ e)\<rparr>"
    by (simp add: file_write_eq_None)
  have c4: "content st3 f0 = content st f0 @ a"
    using e3 by (simp add: content_def)
  have c5: "content st4 f0 = content st f0 @ a @ b"
    using e4 c4 by (simp add: content_def)
  have c6: "content st5 f1 = content st f1"
    using ne e5 e4 e3 by (simp add: content_def)
  have c7: "content st6 f2 = content st f2"
    using ne e6 e5 e4 e3 by (simp add: content_def)
  show ?thesis
    using e7 c7 e6 c6 e5 c5 e4 c4 e3 by simp
qed

lemma write_edit_first_use:
  assumes reg: "map_of (out_files st) (replace_colon (etype e)) = None"
    and w: "write_edit E toks cor_id e st = (st', None)"
  shows "st' = st\<lparr>error_count := counter_incr (error_count st) (etype e),
      dirs := insert (path_join ''out'' (replace_colon (etype e))) (dirs st),
      files := (files st)
        (m2_path (replace_colon (etype e)) \<mapsto> m2_block toks (to_m2 e cor_id),
         src_path (replace_colon (etype e)) \<mapsto> fst (to_srctrg e) @ nl,
         trg_path (replace_colon (etype e)) \<mapsto> snd (to_srctrg e) @ nl),
      opened := opened st @ [m2_path (replace_colon (etype e)),
         src_path (replace_colon (etype e)), trg_path (replace_colon (etype e))],
      out_files := out_files st @ [(replace_colon (etype e), m2_path (replace_colon (etype e)),
         src_path (replace_colon (etype e)), trg_path (replace_colon (etype e)))]\<rparr>"
proof -
  define fn where "fn = replace_colon (etype e)"
  define st1 where "st1 = st\<lparr>error_count := counter_incr (error_count st) (etype e)\<rparr>"
  from reg have reg1: "map_of (out_files st1) fn = None"
    by (simp add: st1_def fn_def)
  from w reg1 obtain st2 where
    o: "open_outputs E fn st1 = (st2, None)" and
    r: "(case map_of (out_files st2) fn of
           None \<Rightarrow> (st2, Some (Exception fn))
         | Some (f0, f1, f2) \<Rightarrow>
             then_do (file_write E f0 (s_line toks @ nl) st2) (\<lambda>st3.
             then_do (file_write E f0 (to_m2 e cor_id @ nl) st3) (\<lambda>st4.
             then_do (file_write E f0 nl st4) (\<lambda>st5.
             then_do (file_write E f1 (fst (to_srctrg e) @ nl) st5) (\<lambda>st6.
             file_write E f2 (snd (to_srctrg e) @ nl) st6))))) = (st', None)"
    unfolding write_edit_def Let_def then_do_eq_None st1_def [symmetric] fn_def [symmetric]
    by auto
  from o have e2: "st2 = st1\<lparr>dirs := insert (path_join ''out'' fn) (dirs st1),
              files := (files st1)(m2_path fn \<mapsto> [], src_path fn \<mapsto> [], trg_path fn \<mapsto> []),
              opened := opened st1 @ [m2_path fn, src_path fn, trg_path fn],
              out_files := out_files st1 @ [(fn, m2_path fn, src_path fn, trg_path fn)]\<rparr>"
    by (rule open_outputs_eq_None)
  with reg1 have l: "map_of (out_files st2) fn = Some (m2_path fn, src_path fn, trg_path fn)"
    by (simp add: map_add_def)
  from r l have "st' = st2\<lparr>files := (files st2)
      (m2_path fn \<mapsto> content st2 (m2_path fn) @ (s_line toks @ nl) @ (to_m2 e cor_id @ nl) @ nl,
       src_path fn \<mapsto> content st2 (src_path fn) @ fst (to_srctrg e) @ nl,
       trg_path fn \<mapsto> content st2 (trg_path fn) @ snd (to_srctrg e) @ nl)\<rparr>"
    by (intro five_writes) simp_all
  moreover have "content st2 (m2_path fn) = []" "content st2 (src_path fn) = []"
    "content st2 (trg_path fn) = []"
    using e2 by (simp_all add: content_def)
  ultimately show ?thesis
    unfolding fn_def [symmetric]
    using e2 by (simp add: st1_def m2_block_def)
qed

lemma write_edit_later_use:
  assumes ok: "handles_ok st"
    and reg: "map_of (out_files st) (replace_colon (etype e)) \<noteq> None"
    and w: "write_edit E toks cor_id e st = (st', None)"
  shows "st' = st\<lparr>error_count := counter_incr (error_count st) (etype e),
      files := (files st)
        (m2_path (replace_colon (etype e)) \<mapsto>
           content st (m2_path (replace_colon (etype e))) @ m2_block toks (to_m2 e cor_id),
         src_path (replace_colon (etype e)) \<mapsto>
           content st (src_path (replace_colon (etype e))) @ fst (to_srctrg e) @ nl,
         trg_path (replace_colon (etype e)) \<mapsto>
           content st (trg_path (replace_colon (etype e))) @ snd (to_srctrg e) @ nl)\<rparr>"
proof -
  define fn where "fn = replace_colon (etype e)"
  define st1 where "st1 = st\<lparr>error_count := counter_incr (error_count st) (etype e)\<rparr>"
  from reg obtain f0 f1 f2 where l0: "map_of (out_files st) fn = Some (f0, f1, f2)"
    unfolding fn_def by (cases "map_of (out_files st) (replace_colon (etype e))") auto
  with ok have p: "f0 = m2_path fn" "f1 = src_path fn" "f2 = trg_path fn"
    using handles_ok_lookup [of st fn f0 f1 f2] by simp_all
  from l0 p have l: "map_of (out_files st1) fn = Some (m2_path fn, src_path fn, trg_path fn)"
    by (simp add: st1_def)
  from w l have "then_do (file_write E (m2_path fn) (s_line toks @ nl) st1) (\<lambda>st3.
             then_do (file_write E (m2_path fn) (to_m2 e cor_id @ nl) st3) (\<lambda>st4.
             then_do (file_write E (m2_path fn) nl st4) (\<lambda>st5.
             then_do (file_write E (src_path fn) (fst (to_srctrg e) @ nl) st5) (\<lambda>st6.
             file_write E (trg_path fn) (snd (to_srctrg e) @ nl) st6)))) = (st', None)"
    unfolding write_edit_def Let_def st1_def [symmetric] fn_def [symmetric]
    by simp
  then have "st' = st1\<lparr>files := (files st1)
      (m2_path fn \<mapsto> content st1 (m2_path fn) @ (s_line toks @ nl) @ (to_m2 e cor_id @ nl) @ nl,
       src_path fn \<mapsto> content st1 (src_path fn) @ fst (to_srctrg e) @ nl,
       trg_path fn \<mapsto> content st1 (trg_path fn) @ snd (to_srctrg e) @ nl)\<rparr>"
    by (intro five_writes) simp_all
  moreover have "content st1 p = content st p" for p
    by (simp add: st1_def content_def)
  ultimately show ?thesis
    unfolding fn_def [symmetric]
    by (simp add: st1_def m2_block_def)
qed

lemma write_edit_effect:
  assumes ok: "handles_ok st" and w: "write_edit E toks cor_id e st = (st', None)"
  defines "fn \<equiv> replace_colon (etype e)"
  defines "fresh \<equiv> map_of (out_files st) fn = None"
  shows "error_count st' = counter_incr (error_count st) (etype e)"
    and "stdout st' = stdout st"
    and "out_files st' =
           (if fresh then out_files st @ [(fn, m2_path fn, src_path fn, trg_path fn)]
            else out_files st)"
    and "opened st' =
           (if fresh then opened st @ [m2_path fn, src_path fn, trg_path fn] else opened st)"
    and "dirs st' = (if fresh then insert (path_join ''out'' fn) (dirs st) else dirs st)"
    and "files st' = (files st)
           (m2_path fn \<mapsto> (if fresh then [] else content st (m2_path fn))
                              @ m2_block toks (to_m2 e cor_id),
            src_path fn \<mapsto> (if fresh then [] else content st (src_path fn))
                              @ fst (to_srctrg e) @ nl,
            trg_path fn \<mapsto> (if fresh then [] else content st (trg_path fn))
                              @ snd (to_srctrg e) @ nl)"
    and "fn \<in> fst ` set (out_files st')"
    and "m2_path fn \<in> set (opened st')"
proof -
  have all: "error_count st' = counter_incr (error_count st) (etype e)
    \<and> stdout st' = stdout st
    \<and> out_files st' =
           (if fresh then out_files st @ [(fn, m2_path fn, src_path fn, trg_path fn)]
            else out_files st)
    \<and> opened st' =
           (if fresh then opened st @ [m2_path fn, src_path fn, trg_path fn] else opened st)
    \<and> dirs st' = (if fresh then insert (path_join ''out'' fn) (dirs st) else dirs st)
    \<and> files st' = (files st)
           (m2_path fn \<mapsto> (if fresh then [] else content st (m2_path fn))
                              @ m2_block toks (to_m2 e cor_id),
            src_path fn \<mapsto> (if fresh then [] else content st (src_path fn))
                              @ fst (to_srctrg e) @ nl,
            trg_path fn \<mapsto> (if fresh then [] else content st (trg_path fn))
                              @ snd (to_srctrg e) @ nl)"
  proof (cases fresh)
    case True
    then have "map_of (out_files st) (replace_colon (etype e)) = None"
      by (simp add: fresh_def fn_def)
    from write_edit_first_use [OF this w] True show ?thesis
      by (simp add: fn_def)
  next
    case False
    then have "map_of (out_files st) (replace_colon (etype e)) \<noteq> None"
      by (simp add: fresh_def fn_def)
    from write_edit_later_use [OF ok this w] False show ?thesis
      by (simp add: fn_def)
  qed
  from all show "error_count st' = counter_incr (error_count st) (etype e)" by blast
  from all show "stdout st' = stdout st" by blast
  from all show o: "out_files st' =
           (if fresh then out_files st @ [(fn, m2_path fn, src_path fn, trg_path fn)]
            else out_files st)" by blast
  from all show op: "opened st' =
           (if fresh then opened st @ [m2_path fn, src_path fn, trg_path fn] else opened st)"
    by blast
  from all show "dirs st' = (if fresh then insert (path_join ''out'' fn) (dirs st) else dirs st)"
    by blast
  from all show "files st' = (files st)
           (m2_path fn \<mapsto> (if fresh then [] else content st (m2_path fn))
                              @ m2_block toks (to_m2 e cor_id),
            src_path fn \<mapsto> (if fresh then [] else content st (src_path fn))
                              @ fst (to_srctrg e) @ nl,
            trg_path fn \<mapsto> (if fresh then [] else content st (trg_path fn))
                              @ snd (to_srctrg e) @ nl)" by blast
  show "fn \<in> fst ` set (out_files st')"
  proof (cases fresh)
    case True
    with o show ?thesis by simp
  next
    case False
    then have "map_of (out_files st) fn \<noteq> None" by (simp add: fresh_def)
    then have "fn \<in> fst ` set (out_files st)" by (simp only: registered_iff)
    with False o show ?thesis by simp
  qed
  show "m2_path fn \<in> set (opened st')"
  proof (cases fresh)
    case True
    with op show ?thesis by simp
  next
    case False
    then obtain f0 f1 f2 where "map_of (out_files st) fn = Some (f0, f1, f2)"
      by (cases "map_of (out_files st) fn") (auto simp: fresh_def)
    from handles_ok_lookup [OF ok this] have "m2_path fn \<in> set (opened st)"
      by blast
    with False op show ?thesis by simp
  qed
qed

lemma write_edit_succeeds:
  assumes nf: "\<And>op s. io_fail E op s = None" and ok: "handles_ok st"
  shows "\<exists>st'. write_edit E toks cor_id e st = (st', None)"
proof (cases "map_of (out_files st) (replace_colon (etype e))")
  case None
  then show ?thesis
    by (simp add: write_edit_def Let_def open_outputs_def makedirs_def open_w_def
        file_write_def map_add_def nf)
next
  case (Some hs)
  obtain f0 f1 f2 where hs: "hs = (f0, f1, f2)" by (cases hs)
  from handles_ok_lookup [OF ok Some [unfolded hs]]
  have "f0 \<in> set (opened st)" "f1 \<in> set (opened st)" "f2 \<in> set (opened st)"
    by blast+
  with Some hs show ?thesis
    by (simp add: write_edit_def Let_def file_write_def nf)
qed

text \<open>
  Whatever fails, every step of the run keeps the stored triples as \<open>handles_ok\<close>
  says: a triple is stored only after its three files were opened, and no file object is
  closed before the loop of \<open>main\<close> ends.
\<close>

lemma makedirs_frame:
  "makedirs E p st = (st', r) \<Longrightarrow> out_files st' = out_files st \<and> opened st' = opened st"
  by (auto simp: makedirs_def split: option.splits)

lemma open_w_frame:
  "open_w E p st = (st', r) \<Longrightarrow>
     out_files st' = out_files st \<and> set (opened st) \<subseteq> set (opened st')"
  by (auto simp: open_w_def split: option.splits)

lemma handles_ok_mono:
  assumes "handles_ok st" and "out_files st' = out_files st"
    and "set (opened st) \<subseteq> set (opened st')"
  shows "handles_ok st'"
  using assms unfolding handles_ok_def list_all_iff by fastforce

lemma open_outputs_Some_frame:
  assumes "open_outputs E fn st = (st', Some x)"
  shows "out_files st' = out_files st \<and> set (opened st) \<subseteq> set (opened st')"
proof -
  obtain s1 r1 where m: "makedirs E (path_join ''out'' fn) st = (s1, r1)"
    by (cases "makedirs E (path_join ''out'' fn) st")
  note f1 = makedirs_frame [OF m]
  show ?thesis
  proof (cases r1)
    case (Some y)
    with m assms have "st' = s1" by (simp add: open_outputs_def)
    with f1 show ?thesis by simp
  next
    case None
    obtain s2 r2 where o2: "open_w E (m2_path fn) s1 = (s2, r2)"
      by (cases "open_w E (m2_path fn) s1")
    note f2 = open_w_frame [OF o2]
    show ?thesis
    proof (cases r2)
      case (Some y)
      with m None o2 assms have "st' = s2" by (simp add: open_outputs_def)
      with f1 f2 show ?thesis by simp
    next
      case n2: None
      obtain s3 r3 where o3: "open_w E (src_path fn) s2 = (s3, r3)"
        by (cases "open_w E (src_path fn) s2")
      note f3 = open_w_frame [OF o3]
      show ?thesis
      proof (cases r3)
        case (Some y)
        with m None o2 n2 o3 assms have "st' = s3" by (simp add: open_outputs_def)
        with f1 f2 f3 show ?thesis by auto
      next
        case n3: None
        obtain s4 r4 where o4: "open_w E (trg_path fn) s3 = (s4, r4)"
          by (cases "open_w E (trg_path fn) s3")
        note f4 = open_w_frame [OF o4]
        show ?thesis
        proof (cases r4)
          case (Some y)
          with m None o2 n2 o3 n3 o4 assms have "st' = s4" by (simp add: open_outputs_def)
          with f1 f2 f3 f4 show ?thesis by auto
        next
          case n4: None
          with m None o2 n2 o3 n3 o4 assms show ?thesis by (simp add: open_outputs_def)
        qed
      qed
    qed
  qed
qed

lemma writes_frame:
  assumes "then_do (file_write E f0 a st) (\<lambda>st3.
           then_do (file_write E f0 b st3) (\<lambda>st4.
           then_do (file_write E f0 c st4) (\<lambda>st5.
           then_do (file_write E f1 d st5) (\<lambda>st6.
           file_write E f2 e st6)))) = (st', r)"
  shows "out_files st' = out_files st \<and> opened st' = opened st"
proof -
  have step: "out_files s' = out_files s \<and> opened s' = opened s"
    if "then_do (file_write E f t s) g = (s', r')"
      and "\<And>s1 s2 r2. g s1 = (s2, r2) \<Longrightarrow> out_files s2 = out_files s1 \<and> opened s2 = opened s1"
    for f t s g s' r'
  proof (cases "file_write E f t s")
    case (Pair s1 r1)
    note f1 = file_write_fields [OF Pair]
    show ?thesis
    proof (cases r1)
      case None
      with Pair that(1) have "g s1 = (s', r')" by simp
      from that(2) [OF this] f1 show ?thesis by simp
    next
      case (Some x)
      with Pair that(1) have "s' = s1" by simp
      with f1 show ?thesis by simp
    qed
  qed
  have last: "out_files s2 = out_files s1 \<and> opened s2 = opened s1"
    if "file_write E f2 e s1 = (s2, r2)" for s1 s2 r2
    using file_write_fields [OF that] by simp
  show ?thesis
    by (rule step [OF assms], rule step, assumption, rule step, assumption, rule step,
        assumption, rule last)
qed

lemma write_edit_handles_ok:
  assumes ok: "handles_ok st" and w: "write_edit E toks cor_id e st = (st', r)"
  shows "handles_ok st'"
proof (cases r)
  case None
  define fn where "fn = replace_colon (etype e)"
  note eff = write_edit_effect [OF ok w [unfolded None], folded fn_def]
  show ?thesis
  proof (cases "map_of (out_files st) fn = None")
    case True
    with ok eff(3) eff(4) show ?thesis
      unfolding handles_ok_def list_all_iff by fastforce
  next
    case False
    with ok eff(3) eff(4) show ?thesis
      by (intro handles_ok_mono [OF ok]) simp_all
  qed
next
  case (Some x)
  define fn where "fn = replace_colon (etype e)"
  define st1 where "st1 = st\<lparr>error_count := counter_incr (error_count st) (etype e)\<rparr>"
  have ok1: "handles_ok st1"
    using ok by (intro handles_ok_mono [OF ok]) (simp_all add: st1_def)
  show ?thesis
  proof (cases "map_of (out_files st1) fn")
    case n: None
    obtain s2 r2 where o: "open_outputs E fn st1 = (s2, r2)"
      by (cases "open_outputs E fn st1")
    show ?thesis
    proof (cases r2)
      case (Some y)
      with o n w have "st' = s2"
        by (simp add: write_edit_def Let_def st1_def [symmetric] fn_def [symmetric])
      with open_outputs_Some_frame [OF o [unfolded Some]] ok1 show ?thesis
        by (intro handles_ok_mono [OF ok1]) simp_all
    next
      case None
      note e2 = open_outputs_eq_None [OF o [unfolded None]]
      have ok2: "handles_ok s2"
        using ok1 unfolding handles_ok_def list_all_iff e2 by fastforce
      from n e2 have l: "map_of (out_files s2) fn = Some (m2_path fn, src_path fn, trg_path fn)"
        by (simp add: map_add_def)
      from w n o None l have "then_do (file_write E (m2_path fn) (s_line toks @ nl) s2) (\<lambda>st3.
             then_do (file_write E (m2_path fn) (to_m2 e cor_id @ nl) st3) (\<lambda>st4.
             then_do (file_write E (m2_path fn) nl st4) (\<lambda>st5.
             then_do (file_write E (src_path fn) (fst (to_srctrg e) @ nl) st5) (\<lambda>st6.
             file_write E (trg_path fn) (snd (to_srctrg e) @ nl) st6)))) = (st', r)"
        by (simp add: write_edit_def Let_def st1_def [symmetric] fn_def [symmetric])
      from writes_frame [OF this] show ?thesis
        by (intro handles_ok_mono [OF ok2]) simp_all
    qed
  next
    case (Some hs)
    obtain f0 f1 f2 where hs: "hs = (f0, f1, f2)" by (cases hs)
    from w Some hs have "then_do (file_write E f0 (s_line toks @ nl) st1) (\<lambda>st3.
             then_do (file_write E f0 (to_m2 e cor_id @ nl) st3) (\<lambda>st4.
             then_do (file_write E f0 nl st4) (\<lambda>st5.
             then_do (file_write E f1 (fst (to_srctrg e) @ nl) st5) (\<lambda>st6.
             file_write E f2 (snd (to_srctrg e) @ nl) st6)))) = (st', r)"
      by (simp add: write_edit_def Let_def st1_def [symmetric] fn_def [symmetric])
    from writes_frame [OF this] show ?thesis
      by (intro handles_ok_mono [OF ok1]) simp_all
  qed
qed

lemma write_edits_handles_ok:
  "handles_ok st \<Longrightarrow> write_edits E toks cor_id es st = (st', r) \<Longrightarrow> handles_ok st'"
proof (induction es arbitrary: st)
  case Nil
  then show ?case by simp
next
  case (Cons e es)
  obtain s1 r1 where w: "write_edit E toks cor_id e st = (s1, r1)"
    by (cases "write_edit E toks cor_id e st")
  from write_edit_handles_ok [OF Cons.prems(1) w] have ok1: "handles_ok s1" .
  show ?case
  proof (cases r1)
    case None
    with w Cons.prems(2) have "write_edits E toks cor_id es s1 = (st', r)" by simp
    from Cons.IH [OF ok1 this] show ?thesis .
  next
    case (Some x)
    with w Cons.prems(2) have "st' = s1" by simp
    with ok1 show ?thesis by simp
  qed
qed

lemma handles_ok_print_line [simp]: "handles_ok (print_line s st) = handles_ok st"
  by (simp add: handles_ok_def print_line_def)

lemma cor_try_handles_ok:
  assumes "handles_ok st"
  shows "handles_ok (cor_try E a orig toks cor_id cor st)"
proof (cases "annotate E orig cor (lev a) (merge a)")
  case (Inl x)
  with assms show ?thesis by (simp add: cor_try_def cor_body_def)
next
  case (Inr edits)
  obtain s1 r1 where w: "write_edits E toks cor_id edits st = (s1, r1)"
    by (cases "write_edits E toks cor_id edits st")
  from write_edits_handles_ok [OF assms w] have "handles_ok s1" .
  with Inr w show ?thesis
    by (cases r1) (simp_all add: cor_try_def cor_body_def)
qed

lemma process_cors_handles_ok:
  "handles_ok st \<Longrightarrow> handles_ok (process_cors E a orig toks cor_id cors st)"
  by (induction cors arbitrary: st cor_id) (simp_all add: cor_try_handles_ok)

lemma group_try_handles_ok:
  "handles_ok st \<Longrightarrow> handles_ok (group_try E a lines st)"
  by (simp add: group_try_def group_body_def process_sentences_def process_cors_handles_ok
      split: sum.splits list.splits)

lemma main_loop_handles_ok:
  "handles_ok st \<Longrightarrow> handles_ok (main_loop E a groups st)"
  by (induction groups arbitrary: st) (simp_all add: group_try_handles_ok)

lemma handles_ok_start: "handles_ok (st\<lparr>out_files := []\<rparr>)"
  by (simp add: handles_ok_def)



lemma io_ok_never: "io_fail (ex_env io_ok) op s = None"
  by (simp add: ex_env_def io_ok_def)


subsection \<open>Failures and the two handlers\<close>










subsection \<open>The run on a file system without failures\<close>

lemma good_handles: "good B st \<Longrightarrow> handles_ok st"
  unfolding good_def by blast

lemma good_exist:
  "good B st \<Longrightarrow> k \<in> fst ` set (out_files st) \<Longrightarrow> outputs_exist st k"
  unfolding good_def by blast

lemma good_blocks:
  "good B st \<Longrightarrow> k \<in> fst ` set (out_files st) \<Longrightarrow>
     \<exists>bs. set bs \<subseteq> B \<and> content st (m2_path k) = m2_blocks bs"
  unfolding good_def by blast

lemma good_tally:
  "good B st \<Longrightarrow> label \<in> fst ` set (error_count st) \<Longrightarrow>
     replace_colon label \<in> fst ` set (out_files st)"
  unfolding good_def by blast

lemma write_edit_good:
  assumes nf: "\<And>op s. io_fail E op s = None"
    and g: "good B st"
    and b: "(toks, to_m2 e cor_id) \<in> B"
  shows "\<exists>st'. write_edit E toks cor_id e st = (st', None) \<and> good B st'"
proof -
  define fn where "fn = replace_colon (etype e)"
  define fresh where "fresh \<longleftrightarrow> map_of (out_files st) fn = None"
  from g have ok: "handles_ok st" by (rule good_handles)
  from write_edit_succeeds [OF nf ok] obtain st'
    where w: "write_edit E toks cor_id e st = (st', None)" by blast
  note eff = write_edit_effect [OF ok w, folded fn_def, folded fresh_def]
  have keys: "k \<in> fst ` set (out_files st') \<longleftrightarrow> k = fn \<or> k \<in> fst ` set (out_files st)" for k
    using eff(7) by (auto simp: eff(3))
  have op: "set (opened st) \<subseteq> set (opened st')"
    by (auto simp: eff(4))
  have newop: "fresh \<Longrightarrow> m2_path fn \<in> set (opened st') \<and> src_path fn \<in> set (opened st')
      \<and> trg_path fn \<in> set (opened st')"
    by (simp add: eff(4))
  have h: "handles_ok st'"
    using ok op newop unfolding handles_ok_def list_all_iff eff(3)
    by (cases fresh) auto
  have ex_old: "outputs_exist st' k" if "outputs_exist st k" for k
    using that by (auto simp: outputs_exist_def eff(5) eff(6))
  have fresh_iff: "fresh \<longleftrightarrow> fn \<notin> fst ` set (out_files st)"
    unfolding fresh_def by (simp add: map_of_eq_None_iff)
  have ex_new: "outputs_exist st' fn"
  proof (cases fresh)
    case True
    then show ?thesis by (simp add: outputs_exist_def eff(5) eff(6))
  next
    case False
    with g have "outputs_exist st fn" by (simp add: good_exist fresh_iff)
    then show ?thesis by (rule ex_old)
  qed
  have cont: "content st' (m2_path k) =
      (if m2_path k = m2_path fn
       then (if fresh then [] else content st (m2_path fn)) @ m2_block toks (to_m2 e cor_id)
       else content st (m2_path k))" for k
    by (simp add: content_def eff(6))
  have old_blocks: "\<exists>bs. set bs \<subseteq> B \<and> content st (m2_path k) = m2_blocks bs"
    if "k \<in> fst ` set (out_files st)" for k
    using g that by (rule good_blocks)
  have new_block: "\<exists>bs. set bs \<subseteq> B \<and>
      (if fresh then [] else content st (m2_path fn)) @ m2_block toks (to_m2 e cor_id)
        = m2_blocks bs"
  proof (cases fresh)
    case True
    have "m2_block toks (to_m2 e cor_id) = m2_blocks [(toks, to_m2 e cor_id)]"
      by (simp add: m2_blocks_def)
    with True b show ?thesis
      by (intro exI [of _ "[(toks, to_m2 e cor_id)]"]) simp
  next
    case False
    then have "fn \<in> fst ` set (out_files st)" by (simp add: fresh_iff)
    from old_blocks [OF this] obtain bs
      where bs: "set bs \<subseteq> B" "content st (m2_path fn) = m2_blocks bs" by blast
    with False b show ?thesis
      by (intro exI [of _ "bs @ [(toks, to_m2 e cor_id)]"]) simp
  qed
  have blocks: "\<exists>bs. set bs \<subseteq> B \<and> content st' (m2_path k) = m2_blocks bs"
    if "k \<in> fst ` set (out_files st')" for k
  proof (cases "m2_path k = m2_path fn")
    case True
    with cont [of k] new_block show ?thesis by simp
  next
    case False
    then have "k \<noteq> fn" by auto
    with that keys have "k \<in> fst ` set (out_files st)" by simp
    from old_blocks [OF this] False cont [of k] show ?thesis by simp
  qed
  have ex: "outputs_exist st' k" if "k \<in> fst ` set (out_files st')" for k
  proof (cases "k = fn")
    case True
    with ex_new show ?thesis by simp
  next
    case False
    with that keys have "k \<in> fst ` set (out_files st)" by simp
    with g have "outputs_exist st k" by (simp add: good_exist)
    then show ?thesis by (rule ex_old)
  qed
  have tl: "replace_colon label \<in> fst ` set (out_files st')"
    if "label \<in> fst ` set (error_count st')" for label
  proof (cases "label = etype e")
    case True
    then show ?thesis by (simp add: keys fn_def)
  next
    case False
    with that have "label \<in> fst ` set (error_count st)"
      by (simp add: eff(1) keys_counter_incr)
    with g have "replace_colon label \<in> fst ` set (out_files st)"
      by (simp add: good_tally)
    then show ?thesis by (simp add: keys)
  qed
  from h ex blocks tl have "good B st'"
    unfolding good_def by blast
  with w show ?thesis by blast
qed

lemma write_edits_good:
  assumes nf: "\<And>op s. io_fail E op s = None"
  shows "good B st \<Longrightarrow> \<forall>e\<in>set es. (toks, to_m2 e cor_id) \<in> B \<Longrightarrow>
    \<exists>st'. write_edits E toks cor_id es st = (st', None) \<and> good B st'"
proof (induction es arbitrary: st)
  case Nil
  then show ?case by simp
next
  case (Cons e es)
  from Cons.prems have "(toks, to_m2 e cor_id) \<in> B" by simp
  from write_edit_good [OF nf Cons.prems(1) this] obtain st1
    where s1: "write_edit E toks cor_id e st = (st1, None)" "good B st1" by blast
  from Cons.prems have "\<forall>e\<in>set es. (toks, to_m2 e cor_id) \<in> B" by simp
  from Cons.IH [OF s1(2) this] s1(1) show ?case by simp
qed

lemma good_print_line [simp]: "good B (print_line s st) = good B st"
  by (simp add: good_def print_line_def handles_ok_def outputs_exist_def content_def)

lemma cor_try_good:
  assumes nf: "\<And>op s. io_fail E op s = None" and g: "good (run_blocks E a) st"
  shows "good (run_blocks E a) (cor_try E a orig (temp1 orig) cor_id cor st)"
proof (cases "annotate E orig cor (lev a) (merge a)")
  case (Inl x)
  with g show ?thesis by (simp add: cor_try_def cor_body_def)
next
  case (Inr edits)
  then have "\<forall>e\<in>set edits. (temp1 orig, to_m2 e cor_id) \<in> run_blocks E a"
    unfolding run_blocks_def by blast
  from write_edits_good [OF nf g this] Inr show ?thesis
    by (auto simp: cor_try_def cor_body_def)
qed

lemma process_cors_good:
  assumes nf: "\<And>op s. io_fail E op s = None"
  shows "good (run_blocks E a) st \<Longrightarrow>
    good (run_blocks E a) (process_cors E a orig (temp1 orig) cor_id cors st)"
  by (induction cors arbitrary: st cor_id) (simp_all add: cor_try_good [OF nf])

lemma group_try_good:
  assumes nf: "\<And>op s. io_fail E op s = None" and g: "good (run_blocks E a) st"
  shows "good (run_blocks E a) (group_try E a lines st)"
  using g process_cors_good [OF nf]
  by (simp add: group_try_def group_body_def process_sentences_def
      split: sum.splits list.splits)

lemma main_loop_good:
  assumes nf: "\<And>op s. io_fail E op s = None"
  shows "good (run_blocks E a) st \<Longrightarrow> good (run_blocks E a) (main_loop E a groups st)"
  by (induction groups arbitrary: st) (simp_all add: group_try_good [OF nf])

lemma close_all_fields:
  "error_count (close_all hs st) = error_count st
   \<and> out_files (close_all hs st) = out_files st
   \<and> files (close_all hs st) = files st
   \<and> dirs (close_all hs st) = dirs st"
  by (induction hs st rule: close_all.induct) (simp_all add: close_file_def)

lemma write_counts_fields:
  "write_counts E f kvs st = (st', r) \<Longrightarrow>
     error_count st' = error_count st \<and> out_files st' = out_files st
    \<and> dirs st' = dirs st
    \<and> (\<forall>p. p \<noteq> f \<longrightarrow> files st' p = files st p)
    \<and> (\<forall>p. files st p \<noteq> None \<longrightarrow> files st' p \<noteq> None)"
proof (induction kvs arbitrary: st)
  case Nil
  then show ?case by simp
next
  case (Cons kv kvs)
  obtain key n where kv: "kv = (key, n)" by (cases kv)
  obtain st1 r1 where w: "file_write E f (key @ tab @ str_nat n) st = (st1, r1)"
    by (cases "file_write E f (key @ tab @ str_nat n) st")
  note f1 = file_write_fields [OF w]
  show ?case
  proof (cases r1)
    case None
    with w Cons.prems kv have "write_counts E f kvs st1 = (st', r)" by simp
    from Cons.IH [OF this] f1 show ?thesis by simp
  next
    case (Some x)
    with w Cons.prems kv have "st' = st1" by simp
    with f1 show ?thesis by simp
  qed
qed

lemma write_histogram_fields:
  assumes "write_histogram E st = (st', r)"
  shows "error_count st' = error_count st \<and> out_files st' = out_files st
    \<and> dirs st' = dirs st
    \<and> (\<forall>p. p \<noteq> ''error_file'' \<longrightarrow> files st' p = files st p)
    \<and> (\<forall>p. files st p \<noteq> None \<longrightarrow> files st' p \<noteq> None)"
proof (cases "io_fail E (Open ''error_file'') st")
  case (Some x)
  with assms show ?thesis by (simp add: write_histogram_def open_w_def)
next
  case None
  define st1 where "st1 = st\<lparr>files := (files st)(''error_file'' \<mapsto> []),
       opened := opened st @ [''error_file'']\<rparr>"
  obtain st2 r2 where w: "write_counts E ''error_file'' (error_count st1) st1 = (st2, r2)"
    by (cases "write_counts E ''error_file'' (error_count st1) st1")
  with None assms have "st' = close_file ''error_file'' st2"
    by (simp add: write_histogram_def open_w_def st1_def)
  with write_counts_fields [OF w] show ?thesis
    by (simp add: close_file_def st1_def)
qed

text \<open>
  What holds after the whole run when no operation on the file system fails.
\<close>

lemma main_good:
  assumes nf: "\<And>op s. io_fail E op s = None"
    and run: "main E a orig_lines cor_lines st0 = (final, r)"
  shows "(\<forall>label \<in> fst ` set (error_count final).
            replace_colon label \<in> fst ` set (out_files final))
       \<and> (\<forall>k \<in> fst ` set (out_files final).
            outputs_exist final k
            \<and> (\<exists>bs. set bs \<subseteq> run_blocks E a \<and> content final (m2_path k) = m2_blocks bs))
       \<and> (\<forall>(k, f0, f1, f2) \<in> set (out_files final).
            f0 = m2_path k \<and> f1 = src_path k \<and> f2 = trg_path k)"
proof -
  define st4 where "st4 = (print_line ''Processing parallel files...''
     ((print_line ''Loading resources...'' st0)\<lparr>error_count := []\<rparr>))\<lparr>out_files := []\<rparr>"
  define st5 where "st5 = main_loop E a (zip_lines (orig_lines # cor_lines)) st4"
  define st6 where "st6 = close_all (out_files st5) st5"
  have m: "main E a orig_lines cor_lines st0 = write_histogram E st6"
    by (simp add: main_def Let_def st4_def st5_def st6_def)
  have "good (run_blocks E a) st4"
    by (simp add: good_def st4_def handles_ok_def print_line_def)
  then have g: "good (run_blocks E a) st5"
    unfolding st5_def by (rule main_loop_good [OF nf])
  from run m have w: "write_histogram E st6 = (final, r)"
    by simp
  note h = write_histogram_fields [OF w]
  note c = close_all_fields [of "out_files st5" st5, folded st6_def]
  from h c have ec: "error_count final = error_count st5"
    and ofs: "out_files final = out_files st5" and ds: "dirs final = dirs st5"
    by simp_all
  from h c have keep: "files st5 p \<noteq> None \<Longrightarrow> files final p \<noteq> None" for p
    by simp
  from h c have same: "p \<noteq> ''error_file'' \<Longrightarrow> files final p = files st5 p" for p
    by simp
  have t: "\<forall>label \<in> fst ` set (error_count final).
            replace_colon label \<in> fst ` set (out_files final)"
    using good_tally [OF g] by (simp add: ec ofs)
  have e: "outputs_exist final k" if "k \<in> fst ` set (out_files final)" for k
  proof -
    from that have "outputs_exist st5 k"
      using good_exist [OF g] by (simp add: ofs)
    then show ?thesis
      by (simp add: outputs_exist_def ds keep)
  qed
  have b: "\<exists>bs. set bs \<subseteq> run_blocks E a \<and> content final (m2_path k) = m2_blocks bs"
    if "k \<in> fst ` set (out_files final)" for k
  proof -
    from that have "\<exists>bs. set bs \<subseteq> run_blocks E a \<and> content st5 (m2_path k) = m2_blocks bs"
      using good_blocks [OF g] by (simp add: ofs)
    moreover have "content final (m2_path k) = content st5 (m2_path k)"
      by (simp add: content_def same m2_path_not_error_file)
    ultimately show ?thesis by simp
  qed
  have p: "\<forall>(k, f0, f1, f2) \<in> set (out_files final).
            f0 = m2_path k \<and> f1 = src_path k \<and> f2 = trg_path k"
    using good_handles [OF g] unfolding handles_ok_def list_all_iff ofs by fast
  from t e b p show ?thesis by blast
qed



text \<open>
  C8.  When no operation on the file system fails, every annotation file of the run is
  a sequence of blocks at the end of the run, each block being the source line \<open>S\<close>
  followed by the space-joined tokens of an original document, then the annotation line
  of an edit found for that document, then an empty line.  So every annotation line is
  directly preceded by its source line and every block ends with an empty line.
\<close>

theorem m2_files_are_blocks:
  assumes "\<And>op s. io_fail E op s = None"
    and "main E a orig_lines cor_lines st0 = (final, r)"
  shows "\<forall>(file_name, f0, f1, f2) \<in> set (out_files final).
           f0 = m2_path file_name
           \<and> (\<exists>bs. set bs \<subseteq> run_blocks E a \<and> content final f0 = m2_blocks bs)"
proof -
  note g = main_good [OF assms]
  have "f0 = m2_path k
      \<and> (\<exists>bs. set bs \<subseteq> run_blocks E a \<and> content final f0 = m2_blocks bs)"
    if "(k, f0, f1, f2) \<in> set (out_files final)" for k f0 f1 f2
  proof -
    from that g have p: "f0 = m2_path k" by fast
    from that have "k \<in> fst ` set (out_files final)" by force
    with g have "\<exists>bs. set bs \<subseteq> run_blocks E a \<and> content final (m2_path k) = m2_blocks bs"
      by blast
    with p show ?thesis by simp
  qed
  then show ?thesis by blast
qed

text \<open>
  The annotation file of \<open>R_VERB\<close> after the example run is the single block of its
  edit.
\<close>

theorem m2_files_are_blocks_witness:
  "(''R_VERB'', ''out/R_VERB/R_VERB.m2'', ''out/R_VERB/R_VERB.src'', ''out/R_VERB/R_VERB.trg'')
     \<in> set (out_files (fst (ex_run io_ok)))
   \<and> content (fst (ex_run io_ok)) ''out/R_VERB/R_VERB.m2'' =
       ''S I is happy'' @ nl @ ''A 1 2|||R:VERB|||am|||REQUIRED|||-NONE-|||0'' @ nl @ nl
   \<and> (\<exists>bs. set bs \<subseteq> run_blocks (ex_env io_ok) ex_args
          \<and> content (fst (ex_run io_ok)) ''out/R_VERB/R_VERB.m2'' = m2_blocks bs)"
proof -
  have o: "out_files (fst (ex_run io_ok)) =
     [(''R_VERB'', ''out/R_VERB/R_VERB.m2'', ''out/R_VERB/R_VERB.src'',
       ''out/R_VERB/R_VERB.trg''),
      (''R_DET'', ''out/R_DET/R_DET.m2'', ''out/R_DET/R_DET.src'', ''out/R_DET/R_DET.trg'')]"
    by code_simp
  have c: "content (fst (ex_run io_ok)) ''out/R_VERB/R_VERB.m2'' =
       ''S I is happy'' @ nl @ ''A 1 2|||R:VERB|||am|||REQUIRED|||-NONE-|||0'' @ nl @ nl"
    by code_simp
  have run: "main (ex_env io_ok) ex_args ex_orig [ex_cor] ex_state
      = (fst (ex_run io_ok), snd (ex_run io_ok))"
    by (simp add: ex_run_def)
  from o have i: "(''R_VERB'', ''out/R_VERB/R_VERB.m2'', ''out/R_VERB/R_VERB.src'',
      ''out/R_VERB/R_VERB.trg'') \<in> set (out_files (fst (ex_run io_ok)))"
    by simp
  with m2_files_are_blocks [OF io_ok_never run]
  have "case (''R_VERB'', ''out/R_VERB/R_VERB.m2'', ''out/R_VERB/R_VERB.src'',
      ''out/R_VERB/R_VERB.trg'') of (file_name, f0, f1, f2) \<Rightarrow>
        f0 = m2_path file_name
        \<and> (\<exists>bs. set bs \<subseteq> run_blocks (ex_env io_ok) ex_args
              \<and> content (fst (ex_run io_ok)) f0 = m2_blocks bs)"
    by (rule bspec)
  then have "\<exists>bs. set bs \<subseteq> run_blocks (ex_env io_ok) ex_args
          \<and> content (fst (ex_run io_ok)) ''out/R_VERB/R_VERB.m2'' = m2_blocks bs"
    unfolding prod.case by (rule conjunct2)
  with i c show ?thesis by blast
qed

text \<open>
  The loop over the counter appends the entries one after the other, with nothing
  between them.
\<close>

lemma write_counts_content:
  "write_counts E f kvs st = (st', None) \<Longrightarrow>
     content st' f = content st f @ concat (map (\<lambda>(key, n). key @ tab @ str_nat n) kvs)"
proof (induction kvs arbitrary: st)
  case Nil
  then show ?case by simp
next
  case (Cons kv kvs)
  obtain key n where kv: "kv = (key, n)" by (cases kv)
  from Cons.prems kv obtain s1 where
    w: "file_write E f (key @ tab @ str_nat n) st = (s1, None)" and
    r: "write_counts E f kvs s1 = (st', None)"
    by (auto simp: then_do_eq_None)
  from w have "content s1 f = content st f @ key @ tab @ str_nat n"
    by (auto simp: file_write_eq_None content_def)
  with Cons.IH [OF r] kv show ?case by simp
qed

text \<open>
  C2.  The run that counts two labels: the histogram file holds the two entries with
  nothing between them.  No line feed is written, so the entries are not on lines of
  their own.
\<close>

theorem histogram_entries_run_together:
  "snd (ex_run io_ok) = None
   \<and> error_count (fst (ex_run io_ok)) = [(''R:VERB'', 1), (''R:DET'', 1)]
   \<and> files (fst (ex_run io_ok)) ''error_file''
       = Some (''R:VERB'' @ tab @ ''1'' @ ''R:DET'' @ tab @ ''1'')
   \<and> CHR 0x0A \<notin> set (''R:VERB'' @ tab @ ''1'' @ ''R:DET'' @ tab @ ''1'')"
  by code_simp

end
